theory Spec2Isabelle
  imports Complex_Main "HOL-Library.Word" "HOL-Library.Numeral_Type"
begin

unbundle bit_operations_syntax

section \<open>KZG10 polynomial commitments with hiding (kzg\_hiding.py)\<close>

text \<open>
  Conventions of the embedding.
  \<^item> Python integers (polynomial coefficients, evaluation points, values, the
    \<open>bigints\<close> handed to the multi-scalar multiplication) are \<^typ>\<open>int\<close>. The
    blinding coefficients \<open>random_ints\<close> are field elements, kept as the integers
    that stand for them.
  \<^item> Elements of the class \<open>Field\<close>, which the toy group \<open>DummyGroup\<close> uses as
    group elements as well, are values of a type \<open>'a\<close> of a commutative ring (a
    field where the code divides). An integer operand of a field operation is taken
    into the field with \<^const>\<open>of_int\<close>, as \<open>base * scalar\<close> does in Python.
  \<^item> A raised exception is a value \<open>Inl e\<close> of a sum type; a loop that may run
    forever returns an \<open>option\<close>, with \<open>None\<close> for not returning.
  \<^item> The scheme is the one built with \<open>debug=False\<close>, the default of the
    constructor: the \<open>if self.debug:\<close> assertions are not part of the model.
\<close>

datatype error = AssertionError | TypeError | ValueError | IndexError | ZeroDivisionError

subsection \<open>Polynomials (class UniPolynomial, not in the sources)\<close>

type_synonym UniPolynomial = "int list"

text \<open>
  Modelled from the spec: \<open>UniPolynomial.degree\<close> (unipolynomial.py is missing).
  The degree is the highest index with a nonzero coefficient, and 0 for the all-zero
  polynomial and for the empty coefficient list.
\<close>

fun degree :: "'a::zero list \<Rightarrow> nat" where
  "degree [] = 0"
| "degree (c # cs) = (if list_all (\<lambda>x. x = 0) cs then 0 else Suc (degree cs))"

text \<open>
  Modelled from the spec: \<open>UniPolynomial.evaluate\<close> (unipolynomial.py is missing).
  The value of the polynomial at a point, the sum of \<open>coeffs[i] * x ** i\<close>.
\<close>

definition evaluate :: "'a::comm_ring_1 list \<Rightarrow> 'a \<Rightarrow> 'a" where
  "evaluate coeffs x = (\<Sum>i\<leftarrow>[0..<length coeffs]. coeffs ! i * x ^ i)"

text \<open>
  Modelled from the spec: \<open>UniPolynomial.__add__\<close> (unipolynomial.py is missing),
  the coefficient-wise sum, the shorter list continued with zeros.
\<close>

fun poly_add :: "'a::comm_ring_1 list \<Rightarrow> 'a list \<Rightarrow> 'a list" where
  "poly_add [] qs = qs"
| "poly_add ps [] = ps"
| "poly_add (p # ps) (q # qs) = (p + q) # poly_add ps qs"

subsection \<open>Synthetic division (KZG10Commitment.division\_by\_linear\_divisor)\<close>

text \<open>
  The loop \<open>for i, coeff in enumerate(reversed(coeffs))\<close> over the state
  \<open>(quotient, remainder)\<close>. The store \<open>quotient[-i] = remainder\<close> writes index
  \<open>len(quotient) - i\<close> and raises IndexError for \<open>i > len(quotient)\<close>.
\<close>

fun division_loop ::
  "'a::comm_ring_1 \<Rightarrow> (nat \<times> 'a) list \<Rightarrow> 'a list \<Rightarrow> 'a \<Rightarrow> error + ('a list \<times> 'a)" where
  "division_loop d [] quot remainder = Inr (quot, remainder)"
| "division_loop d ((i, coeff) # rest) quot remainder =
     (if i = 0 then division_loop d rest quot coeff
      else if i > length quot then Inl IndexError
      else division_loop d rest (quot[length quot - i := remainder])
             (remainder * d + coeff))"

definition division_by_linear_divisor ::
  "'a::comm_ring_1 list \<Rightarrow> 'a \<Rightarrow> error + ('a list \<times> 'a)" where
  "division_by_linear_divisor coeffs d =
     (if \<not> length coeffs > 1 then Inl AssertionError
      else division_loop d (enumerate 0 (rev coeffs))
             (replicate (length coeffs - 1) 0) 0)"

text \<open>Horner's scheme, the closed form of the remainder and of each quotient coefficient.\<close>

fun horner :: "'a::comm_ring_1 list \<Rightarrow> 'a \<Rightarrow> 'a" where
  "horner [] d = 0"
| "horner (c # cs) d = c + d * horner cs d"

text \<open>
  The coefficient list of \<open>quotient(x) * (x - d) + remainder\<close>, used to state the
  division identity: coefficient \<open>k\<close> of the product is
  \<open>quotient[k-1] - d * quotient[k]\<close>, and the remainder joins the constant term.
\<close>

definition times_linear :: "'a::comm_ring_1 list \<Rightarrow> 'a \<Rightarrow> 'a list" where
  "times_linear quot d = map2 (\<lambda>a b. a - d * b) (0 # quot) (quot @ [0])"

definition reconstruct :: "'a::comm_ring_1 list \<Rightarrow> 'a \<Rightarrow> 'a \<Rightarrow> 'a list" where
  "reconstruct quot d remainder =
     (case times_linear quot d of [] \<Rightarrow> [remainder] | c # cs \<Rightarrow> (c + remainder) # cs)"

subsection \<open>Leading zeros (skip\_leading\_zeros\_and\_convert\_to\_bigints)\<close>

text \<open>The loop \<open>while num_leading_zeros < len(coeffs) and coeffs[num_leading_zeros] == 0\<close>.\<close>

function skip_zeros_loop :: "int list \<Rightarrow> nat \<Rightarrow> nat" where
  "skip_zeros_loop coeffs num_leading_zeros =
     (if num_leading_zeros < length coeffs \<and> coeffs ! num_leading_zeros = 0
      then skip_zeros_loop coeffs (num_leading_zeros + 1)
      else num_leading_zeros)"
  by pat_completeness auto
termination
  by (relation "measure (\<lambda>(coeffs, n). length coeffs - n)") auto

declare skip_zeros_loop.simps [simp del]

definition skip_leading_zeros_and_convert_to_bigints :: "UniPolynomial \<Rightarrow> nat \<times> int list" where
  "skip_leading_zeros_and_convert_to_bigints p =
     (let num_leading_zeros = skip_zeros_loop p 0
      in (num_leading_zeros, drop num_leading_zeros p))"

subsection \<open>Multi-scalar multiplication\<close>

definition negation_is_cheap :: bool where
  "negation_is_cheap = False"

definition msm_bigint_basic :: "'a::comm_ring_1 list \<Rightarrow> int list \<Rightarrow> 'a" where
  "msm_bigint_basic bases bigints =
     foldl (\<lambda>result (base, scalar). result + base * of_int scalar) 0 (zip bases bigints)"

text \<open>The loop \<open>while d > 0: d >>= 1; k += 1\<close> of \<open>next_power_of_two\<close>.\<close>

function next_power_of_two_loop :: "int \<Rightarrow> nat \<Rightarrow> nat" where
  "next_power_of_two_loop d k =
     (if d > 0 then next_power_of_two_loop (drop_bit 1 d) (k + 1) else k)"
  by pat_completeness auto
termination
  by (relation "measure (\<lambda>(d, k). nat d)") (auto simp: drop_bit_eq_div)

declare next_power_of_two_loop.simps [simp del]

definition next_power_of_two :: "int \<Rightarrow> error + nat" where
  "next_power_of_two n =
     (if \<not> n \<ge> 0 then Inl AssertionError else Inr (next_power_of_two_loop n 0))"

definition WINDOW_SIZE :: nat where
  "WINDOW_SIZE = 5"

text \<open>
  \<open>max(next_power_of_two(bigint) for bigint in bigints)\<close>: the generator raises at
  the first negative scalar, and \<open>max\<close> of no value at all raises ValueError.
\<close>

fun next_powers_of_two :: "int list \<Rightarrow> error + nat list" where
  "next_powers_of_two [] = Inr []"
| "next_powers_of_two (bigint # bigints) =
     (case next_power_of_two bigint of
        Inl e \<Rightarrow> Inl e
      | Inr k \<Rightarrow> (case next_powers_of_two bigints of
                   Inl e \<Rightarrow> Inl e
                 | Inr ks \<Rightarrow> Inr (k # ks)))"

definition max_next_power_of_two :: "int list \<Rightarrow> error + nat" where
  "max_next_power_of_two bigints =
     (case next_powers_of_two bigints of
        Inl e \<Rightarrow> Inl e
      | Inr [] \<Rightarrow> Inl ValueError
      | Inr (k # ks) \<Rightarrow> Inr (foldl max k ks))"

text \<open>
  The body of the inner loop of \<open>msm_bigint_wnaf\<close> for one \<open>(j, (base, scalar))\<close> at
  bit position \<open>i\<close>. The window lies between 1 and 31 where \<open>precomp\<close> is read, so
  both reads are within the 16 entries of row \<open>j\<close>.
\<close>

fun wnaf_inner ::
  "'a::comm_ring_1 list list \<Rightarrow> nat \<Rightarrow> (nat \<times> 'a \<times> int) list \<Rightarrow> 'a \<Rightarrow> error + 'a" where
  "wnaf_inner precomp i [] result = Inr result"
| "wnaf_inner precomp i ((j, base, scalar) # rest) result =
     (case next_power_of_two scalar of
        Inl e \<Rightarrow> Inl e
      | Inr k \<Rightarrow>
          if k > i then
            (let window = (drop_bit i scalar) AND (push_bit WINDOW_SIZE 1 - 1)
             in if window \<noteq> 0 then
                  (if window \<ge> push_bit (WINDOW_SIZE - 1) 1
                   then wnaf_inner precomp i rest
                          (result - precomp ! j ! nat (window - push_bit (WINDOW_SIZE - 1) 1))
                   else wnaf_inner precomp i rest (result + precomp ! j ! nat (window - 1)))
                else wnaf_inner precomp i rest result)
          else wnaf_inner precomp i rest result)"

fun wnaf_outer ::
  "'a::comm_ring_1 list list \<Rightarrow> 'a list \<Rightarrow> int list \<Rightarrow> nat list \<Rightarrow> 'a \<Rightarrow> error + 'a" where
  "wnaf_outer precomp bases bigints [] result = Inr result"
| "wnaf_outer precomp bases bigints (i # is) result =
     (case wnaf_inner precomp i (enumerate 0 (zip bases bigints)) (result + result) of
        Inl e \<Rightarrow> Inl e
      | Inr result' \<Rightarrow> wnaf_outer precomp bases bigints is result')"

definition msm_bigint_wnaf :: "'a::comm_ring_1 list \<Rightarrow> int list \<Rightarrow> error + 'a" where
  "msm_bigint_wnaf bases bigints =
     (let precomp = map (\<lambda>base. map (\<lambda>i. base * of_nat i) [0..<push_bit (WINDOW_SIZE - 1) 1]) bases
      in case max_next_power_of_two bigints of
           Inl e \<Rightarrow> Inl e
         | Inr m \<Rightarrow> wnaf_outer precomp bases bigints [0..<m] 0)"

definition msm_bigint :: "bool \<Rightarrow> 'a::comm_ring_1 list \<Rightarrow> int list \<Rightarrow> error + 'a" where
  "msm_bigint negation_is_cheap' bases bigints =
     (if negation_is_cheap' then msm_bigint_wnaf bases bigints
      else Inr (msm_bigint_basic bases bigints))"

subsection \<open>Commitments (class Commitment)\<close>

record ('g, 'a) Commitment =
  group :: 'g
  val :: 'a

text \<open>
  \<open>Commitment.__add__\<close>. The method \<open>exp\<close> of the group object is not in the
  sources (group.py is missing) and is the parameter \<open>group_exp\<close>.
\<close>

definition Commitment_add ::
  "('a \<Rightarrow> int \<Rightarrow> 'a::comm_ring_1) \<Rightarrow> ('g, 'a) Commitment \<Rightarrow> ('g, 'a) Commitment
     \<Rightarrow> error + ('g, 'a) Commitment" where
  "Commitment_add group_exp self other =
     (if group self \<noteq> group other then Inl TypeError
      else Inr \<lparr>group = group self, val = group_exp (val self) 1 + group_exp (val other) 1\<rparr>)"

subsection \<open>The scheme (class KZG10Commitment)\<close>

record 'a params =
  powers_of_g :: "'a list"
  powers_of_gamma_g :: "'a list"
  h :: 'a
  beta_h :: 'a
  neg_powers_of_h :: "'a list"

record ('g, 'a) KZG10Commitment =
  G1 :: 'g
  G2 :: 'g
  max_degree :: int
  hiding_bound :: "int option"
  params :: "'a params"

record 'a Proof =
  w :: 'a
  random_v :: "int option"

text \<open>
  The method \<open>setup\<close> of the class, in two parts. \<open>setup_draws\<close> is its
  beginning, which fixes the generators \<open>g\<close> and \<open>h\<close>, the secret \<open>s\<close> and the
  blinding generator \<open>gamma_g\<close>: the calls of \<open>field.random_element()\<close> read an
  entropy stream \<open>rnd\<close> of integers in the order of the calls, each taken into the
  field. The two generators are given together or not at all (the code tests
  \<open>g1_generator\<close> only).
\<close>

definition setup_draws ::
  "'a::field option \<Rightarrow> (int \<times> int) option \<Rightarrow> (nat \<Rightarrow> int) \<Rightarrow> 'a \<times> 'a \<times> 'a \<times> 'a" where
  "setup_draws secret_symbol generators rnd =
     (let (g, h', k) = (case generators of
                          None \<Rightarrow> (of_int (rnd 0), of_int (rnd 1), 2 :: nat)
                        | Some (g1_generator, g2_generator) \<Rightarrow>
                            (of_int g1_generator, of_int g2_generator, 0));
          (s, k') = (case secret_symbol of
                       None \<Rightarrow> (of_int (rnd k), k + 1)
                     | Some secret \<Rightarrow> (secret, k));
          gamma_g = of_int (rnd k')
      in (g, h', s, gamma_g))"

text \<open>
  \<open>setup_srs\<close> is the whole method. Division by a zero secret, which only
  \<open>produce_g2_powers\<close> reaches, is an error.
\<close>

definition setup_srs ::
  "int \<Rightarrow> bool \<Rightarrow> 'a::field option \<Rightarrow> (int \<times> int) option \<Rightarrow> (nat \<Rightarrow> int) \<Rightarrow> error + 'a params" where
  "setup_srs max_degree' produce_g2_powers secret_symbol generators rnd =
     (let (g, h', s, gamma_g) = setup_draws secret_symbol generators rnd;
          powers_of_s = map (\<lambda>i. s ^ i) [0..<nat (max_degree' + 2)];
          powers_of_g' = map (\<lambda>i. g * powers_of_s ! i) [0..<nat (max_degree' + 1)];
          powers_of_gamma_g' = map (\<lambda>i. gamma_g * powers_of_s ! i) [0..<nat (max_degree' + 2)]
      in if produce_g2_powers then
           (if s = 0 then Inl ZeroDivisionError
            else
              let neg_powers_of_beta =
                    fst (foldl (\<lambda>(npb, cur) _. (npb @ [cur], cur / s)) ([1], 1 / s)
                           [0..<nat max_degree']);
                  neg_powers_of_h' =
                    map (\<lambda>i. h' * neg_powers_of_beta ! i) [0..<nat (max_degree' + 1)]
              in Inr \<lparr>powers_of_g = powers_of_g', powers_of_gamma_g = powers_of_gamma_g',
                       h = h', beta_h = s * h', neg_powers_of_h = neg_powers_of_h'\<rparr>)
         else Inr \<lparr>powers_of_g = powers_of_g', powers_of_gamma_g = powers_of_gamma_g',
                    h = h', beta_h = s * h', neg_powers_of_h = []\<rparr>)"

text \<open>\<open>KZG10Commitment.__init__\<close>, which calls \<open>self.setup()\<close> with its defaults.\<close>

definition KZG10Commitment_init ::
  "'g \<Rightarrow> 'g \<Rightarrow> int \<Rightarrow> int option \<Rightarrow> (nat \<Rightarrow> int) \<Rightarrow> error + ('g, 'a::field) KZG10Commitment" where
  "KZG10Commitment_init G1' G2' max_degree' hiding_bound' rnd =
     (case setup_srs max_degree' False None None rnd of
        Inl e \<Rightarrow> Inl e
      | Inr prm \<Rightarrow> Inr \<lparr>G1 = G1', G2 = G2', max_degree = max_degree',
                         hiding_bound = hiding_bound', params = prm\<rparr>)"

text \<open>
  The loop \<open>while UniPolynomial(random_ints).degree == 0\<close> of \<open>commit\<close>: each round
  draws \<open>hiding_bound + 1\<close> fresh elements of the field; \<open>k\<close> counts the values drawn
  so far. A drawn element is kept as the integer of the entropy stream that stands for
  it, the form in which \<open>msm_bigint\<close> takes its scalars; the element itself is
  \<open>to_field\<close> of that integer (\<open>commit\<close> passes \<^const>\<open>of_int\<close>, as \<open>setup_draws\<close>
  does for its draws), and the degree that the loop tests is the degree of the
  polynomial of these field elements. The loop need not end, so the result is an
  option.
\<close>

partial_function (option) sample_random_ints ::
  "(int \<Rightarrow> 'a::zero) \<Rightarrow> (nat \<Rightarrow> int) \<Rightarrow> int \<Rightarrow> nat \<Rightarrow> int list \<Rightarrow> (int list \<times> nat) option" where
  "sample_random_ints to_field rnd hiding_bound' k random_ints =
     (if degree (map to_field random_ints) = 0
      then sample_random_ints to_field rnd hiding_bound' (k + nat (hiding_bound' + 1))
             (map rnd [k..<k + nat (hiding_bound' + 1)])
      else Some (random_ints, k))"

text \<open>
  \<open>commit\<close>. The result is \<open>None\<close> when the sampling loop does not end, an error
  for a failed assertion, and else the commitment with the blinding coefficients.
  The first loop of the code computes a value that the next assignment overwrites.
\<close>

definition commit ::
  "('g, 'a::comm_ring_1) KZG10Commitment \<Rightarrow> (nat \<Rightarrow> int) \<Rightarrow> UniPolynomial
     \<Rightarrow> (error + (('g, 'a) Commitment \<times> int list)) option" where
  "commit self rnd polynomial =
     (let num_coefficients = degree polynomial + 1;
          num_powers = length (powers_of_g (params self))
      in if \<not> num_coefficients \<le> num_powers then Some (Inl AssertionError)
         else
           let commitment0 = foldl (\<lambda>commitment (gi, coeff). commitment + of_int coeff * gi) 0
                               (zip (powers_of_g (params self)) polynomial);
               (num_leading_zeros, plain_coeffs) =
                  skip_leading_zeros_and_convert_to_bigints polynomial
           in case msm_bigint negation_is_cheap
                     (drop num_leading_zeros (powers_of_g (params self))) plain_coeffs of
                Inl e \<Rightarrow> Some (Inl e)
              | Inr commitment \<Rightarrow>
                  (case hiding_bound self of
                     None \<Rightarrow> Some (Inr (\<lparr>group = G1 self, val = commitment\<rparr>, []))
                   | Some hb \<Rightarrow>
                       (case sample_random_ints (of_int :: int \<Rightarrow> 'a) rnd hb 0 [] of
                          None \<Rightarrow> None
                        | Some (random_ints, k) \<Rightarrow>
                            let hiding_poly_degree = int (length random_ints) - 1;
                                num_powers' = int (length (powers_of_gamma_g (params self)))
                            in if \<not> hb \<noteq> 0 then Some (Inl AssertionError)
                               else if \<not> hiding_poly_degree < num_powers'
                               then Some (Inl AssertionError)
                               else
                                 (case msm_bigint negation_is_cheap
                                         (powers_of_gamma_g (params self)) random_ints of
                                    Inl e \<Rightarrow> Some (Inl e)
                                  | Inr random_commitment \<Rightarrow>
                                      Some (Inr (\<lparr>group = G1 self,
                                                   val = commitment + random_commitment\<rparr>,
                                                 random_ints))))))"

text \<open>
  \<open>compute_witness_polynomial\<close>. Modelled from the spec: the method
  \<open>UniPolynomial.division_by_linear_divisor\<close> (unipolynomial.py is missing) is the
  synthetic division of section 4.6, the static method above applied to the
  coefficients.
\<close>

definition compute_witness_polynomial ::
  "('g, 'a) KZG10Commitment \<Rightarrow> UniPolynomial \<Rightarrow> int \<Rightarrow> int list
     \<Rightarrow> error + (UniPolynomial \<times> UniPolynomial option)" where
  "compute_witness_polynomial self polynomial point random_ints =
     (case division_by_linear_divisor polynomial point of
        Inl e \<Rightarrow> Inl e
      | Inr (witness_polynomial, pz) \<Rightarrow>
          (if hiding_bound self \<noteq> None then
             (case division_by_linear_divisor random_ints point of
                Inl e \<Rightarrow> Inl e
              | Inr (random_witness_polynomial, pr) \<Rightarrow>
                  Inr (witness_polynomial, Some random_witness_polynomial))
           else Inr (witness_polynomial, None)))"

definition open_with_witness_polynomial ::
  "('g, 'a::comm_ring_1) KZG10Commitment \<Rightarrow> int \<Rightarrow> int list \<Rightarrow> UniPolynomial
     \<Rightarrow> UniPolynomial option \<Rightarrow> error + 'a Proof" where
  "open_with_witness_polynomial self point random_ints witness_polynomial
       hiding_witness_polynomial =
     (if \<not> degree witness_polynomial + 1 < length (powers_of_g (params self))
      then Inl AssertionError
      else
        let (num_leading_zeros, witness_coeffs) =
               skip_leading_zeros_and_convert_to_bigints witness_polynomial
        in case msm_bigint negation_is_cheap
                  (drop num_leading_zeros (powers_of_g (params self))) witness_coeffs of
             Inl e \<Rightarrow> Inl e
           | Inr w0 \<Rightarrow>
               (case hiding_witness_polynomial of
                  None \<Rightarrow> Inr \<lparr>w = w0, random_v = None\<rparr>
                | Some hiding_coeffs \<Rightarrow>
                    (case msm_bigint negation_is_cheap
                            (powers_of_gamma_g (params self)) hiding_coeffs of
                       Inl e \<Rightarrow> Inl e
                     | Inr wr \<Rightarrow>
                         Inr \<lparr>w = w0 + wr, random_v = Some (evaluate random_ints point)\<rparr>)))"

definition "open" ::
  "('g, 'a::comm_ring_1) KZG10Commitment \<Rightarrow> UniPolynomial \<Rightarrow> int \<Rightarrow> int list
     \<Rightarrow> error + 'a Proof" where
  "open self polynomial point random_ints =
     (if \<not> degree polynomial + 1 < length (powers_of_g (params self))
      then Inl AssertionError
      else case compute_witness_polynomial self polynomial point random_ints of
             Inl e \<Rightarrow> Inl e
           | Inr (witness_poly, hiding_witness_poly) \<Rightarrow>
               open_with_witness_polynomial self point random_ints witness_poly
                 hiding_witness_poly)"

text \<open>
  \<open>check\<close>. Modelled from the spec: \<open>DummyGroup.pairing\<close> (group.py is missing)
  is the parameter \<open>pairing\<close>, whose results are compared as elements of the target
  group. Reading \<open>powers_of_g[0]\<close> from an empty list raises IndexError, and a proof
  without a blinding value cannot be multiplied.
\<close>

definition check ::
  "('g, 'a::comm_ring_1) KZG10Commitment \<Rightarrow> ('a \<Rightarrow> 'a \<Rightarrow> 't) \<Rightarrow> ('g, 'a) Commitment
     \<Rightarrow> int \<Rightarrow> int \<Rightarrow> 'a Proof \<Rightarrow> error + bool" where
  "check self pairing comm point value' proof' =
     (case powers_of_g (params self) of
        [] \<Rightarrow> Inl IndexError
      | g0 # gs \<Rightarrow>
          (let inner = val comm - g0 * of_int value'
           in case (if hiding_bound self \<noteq> None then
                      (case powers_of_gamma_g (params self) of
                         [] \<Rightarrow> Inl IndexError
                       | gamma0 # gammas \<Rightarrow>
                           (case random_v proof' of
                              None \<Rightarrow> Inl TypeError
                            | Some rv \<Rightarrow> Inr (inner - gamma0 * of_int rv)))
                    else Inr inner) of
                Inl e \<Rightarrow> Inl e
              | Inr inner' \<Rightarrow>
                  Inr (pairing inner' (h (params self))
                       = pairing (w proof')
                           (beta_h (params self) - h (params self) * of_int point))))"

text \<open>
  \<open>random.randint(a, b)\<close> of the Python library returns an integer between \<open>a\<close> and
  \<open>b\<close>, both included: call number \<open>k\<close> takes value number \<open>k\<close> of an entropy
  stream into that range.
\<close>

definition randint :: "(nat \<Rightarrow> int) \<Rightarrow> nat \<Rightarrow> int \<Rightarrow> int \<Rightarrow> int" where
  "randint rnd k a b = a + rnd k mod (b - a + 1)"

text \<open>
  The loop of \<open>batch_check\<close> over the zipped claims, with the accumulators
  \<open>total_c\<close>, \<open>total_w\<close>, \<open>g_multiplier\<close>, \<open>gamma_g_multiplier\<close> and the current
  \<open>randomizer\<close>; \<open>k\<close> counts the calls of \<open>randint\<close>. The integer that
  \<open>value[0]\<close> reads off a field element is taken back into the field where it is
  used, so the model keeps the element.
\<close>

fun batch_loop ::
  "bool \<Rightarrow> (nat \<Rightarrow> int) \<Rightarrow> (('g, 'a::comm_ring_1) Commitment \<times> int \<times> int \<times> 'a Proof) list
     \<Rightarrow> nat \<Rightarrow> 'a \<Rightarrow> 'a \<Rightarrow> int \<Rightarrow> int \<Rightarrow> int \<Rightarrow> error + ('a \<times> 'a \<times> int \<times> int)" where
  "batch_loop hiding rnd [] k total_c total_w g_multiplier gamma_g_multiplier randomizer =
     Inr (total_c, total_w, g_multiplier, gamma_g_multiplier)"
| "batch_loop hiding rnd ((c, z, v, proof') # rest) k total_c total_w g_multiplier
       gamma_g_multiplier randomizer =
     (let c' = of_int z * w proof' + val c;
          g_multiplier' = g_multiplier + randomizer * v
      in case (if hiding then
                 (case random_v proof' of
                    None \<Rightarrow> Inl TypeError
                  | Some rv \<Rightarrow> Inr (gamma_g_multiplier + randomizer * rv))
               else Inr gamma_g_multiplier) of
           Inl e \<Rightarrow> Inl e
         | Inr gamma_g_multiplier' \<Rightarrow>
             batch_loop hiding rnd rest (k + 1)
               (total_c + c' * of_int randomizer)
               (total_w + w proof' * of_int randomizer)
               g_multiplier' gamma_g_multiplier'
               (randint rnd k 0 (push_bit 128 1)))"

definition batch_check ::
  "('g, 'a::comm_ring_1) KZG10Commitment \<Rightarrow> ('a \<Rightarrow> 'a \<Rightarrow> 't) \<Rightarrow> (nat \<Rightarrow> int)
     \<Rightarrow> ('g, 'a) Commitment list \<Rightarrow> int list \<Rightarrow> int list \<Rightarrow> 'a Proof list \<Rightarrow> error + bool" where
  "batch_check self pairing rnd commitments points values proofs =
     (case batch_loop (hiding_bound self \<noteq> None) rnd
             (zip commitments (zip points (zip values proofs))) 0 0 0 0 0 1 of
        Inl e \<Rightarrow> Inl e
      | Inr (total_c, total_w, g_multiplier, gamma_g_multiplier) \<Rightarrow>
          (case powers_of_g (params self) of
             [] \<Rightarrow> Inl IndexError
           | g0 # gs \<Rightarrow>
               (let total_c' = total_c - g0 * of_int g_multiplier
                in case (if hiding_bound self \<noteq> None then
                           (case powers_of_gamma_g (params self) of
                              [] \<Rightarrow> Inl IndexError
                            | gamma0 # gammas \<Rightarrow>
                                Inr (total_c' - gamma0 * of_int gamma_g_multiplier))
                         else Inr total_c') of
                     Inl e \<Rightarrow> Inl e
                   | Inr total_c'' \<Rightarrow>
                       Inr (pairing total_w (beta_h (params self))
                            = pairing total_c'' (h (params self))))))"

text \<open>
  The randomizer that the loop multiplies into claim number \<open>i\<close>, for a run that
  starts with the randomizer \<open>first\<close> after \<open>k\<close> calls of \<open>randint\<close>.
\<close>

definition randomizer_at :: "(nat \<Rightarrow> int) \<Rightarrow> nat \<Rightarrow> int \<Rightarrow> nat \<Rightarrow> int" where
  "randomizer_at rnd k first i =
     (if i = 0 then first else randint rnd (k + i - 1) 0 (push_bit 128 1))"


section \<open>Verification\<close>

subsection \<open>Synthetic division\<close>

lemma evaluate_Cons: "evaluate (c # cs) x = c + x * evaluate cs x"
proof -
  have "[0..<length (c # cs)] = 0 # map Suc [0..<length cs]"
    by (simp add: upt_conv_Cons map_Suc_upt del: upt_Suc)
  then show ?thesis
    by (simp add: evaluate_def o_def sum_list_const_mult algebra_simps del: upt_Suc)
qed

lemma evaluate_horner: "evaluate cs x = horner cs x"
  by (induction cs) (simp_all add: evaluate_Cons, simp add: evaluate_def)

lemma division_loop_run:
  assumes "length quot = length coeffs - 1" "1 \<le> m" "m \<le> length coeffs"
    and "remainder = horner (drop (length coeffs - m) coeffs) d"
    and "\<forall>j < length quot. length coeffs - m \<le> j \<longrightarrow> quot ! j = horner (drop (Suc j) coeffs) d"
  shows "division_loop d (enumerate m (drop m (rev coeffs))) quot remainder
         = Inr (map (\<lambda>j. horner (drop (Suc j) coeffs) d) [0..<length coeffs - 1], horner coeffs d)"
  using assms
proof (induction "length coeffs - m" arbitrary: m quot remainder)
  case 0
  then have m: "m = length coeffs" by simp
  have "quot = map (\<lambda>j. horner (drop (Suc j) coeffs) d) [0..<length coeffs - 1]"
    using 0 m by (intro nth_equalityI) simp_all
  then show ?case using 0 m by simp
next
  case (Suc k)
  let ?n = "length coeffs"
  have mlt: "m < ?n" using Suc by simp
  let ?c = "coeffs ! (?n - Suc m)"
  have dr: "drop m (rev coeffs) = ?c # drop (Suc m) (rev coeffs)"
    using mlt by (simp add: Cons_nth_drop_Suc [symmetric] rev_nth)
  have dc: "drop (?n - Suc m) coeffs = ?c # drop (?n - m) coeffs"
    using mlt Suc.prems(2)
    by (metis Cons_nth_drop_Suc Suc_diff_Suc diff_less zero_less_Suc length_greater_0_conv
        less_imp_diff_less list.size(3) not_less_zero)
  let ?q = "quot[length quot - m := remainder]"
  have step: "division_loop d (enumerate m (drop m (rev coeffs))) quot remainder
      = division_loop d (enumerate (Suc m) (drop (Suc m) (rev coeffs))) ?q (remainder * d + ?c)"
    using mlt Suc.prems(1,2) by (simp add: dr)
  have "division_loop d (enumerate (Suc m) (drop (Suc m) (rev coeffs))) ?q (remainder * d + ?c)
      = Inr (map (\<lambda>j. horner (drop (Suc j) coeffs) d) [0..<?n - 1], horner coeffs d)"
  proof (rule Suc.hyps(1))
    show "k = ?n - Suc m" using Suc.hyps(2) by simp
    show "length ?q = ?n - 1" using Suc.prems(1) by simp
    show "1 \<le> Suc m" by simp
    show "Suc m \<le> ?n" using mlt by simp
    show "remainder * d + ?c = horner (drop (?n - Suc m) coeffs) d"
      using Suc.prems(4) by (simp add: dc algebra_simps)
    show "\<forall>j<length ?q. ?n - Suc m \<le> j \<longrightarrow> ?q ! j = horner (drop (Suc j) coeffs) d"
    proof (intro allI impI)
      fix j assume j: "j < length ?q" "?n - Suc m \<le> j"
      show "?q ! j = horner (drop (Suc j) coeffs) d"
      proof (cases "j = ?n - Suc m")
        case True
        then have "j = length quot - m" using Suc.prems(1) by simp
        moreover have "Suc j = ?n - m" using True mlt by simp
        ultimately show ?thesis using j(1) Suc.prems(4) by simp
      next
        case False
        then have "?n - m \<le> j" using j(2) by simp
        moreover have "j \<noteq> length quot - m" using False Suc.prems(1) by simp
        ultimately show ?thesis using j(1) Suc.prems(5) by simp
      qed
    qed
  qed
  with step show ?case by simp
qed


lemma division_by_linear_divisor_eq:
  assumes "length coeffs > 1"
  shows "division_by_linear_divisor coeffs d
         = Inr (map (\<lambda>j. horner (drop (Suc j) coeffs) d) [0..<length coeffs - 1], horner coeffs d)"
proof -
  let ?n = "length coeffs"
  have ne: "rev coeffs \<noteq> []" using assms by auto
  have "rev coeffs = hd (rev coeffs) # drop 1 (rev coeffs)"
    using ne by (cases "rev coeffs") simp_all
  then have en: "enumerate 0 (rev coeffs) = (0, last coeffs) # enumerate 1 (drop 1 (rev coeffs))"
    using ne by (metis One_nat_def enumerate_simps(2) hd_rev)
  have "coeffs = butlast coeffs @ [last coeffs]" using assms by (cases coeffs rule: rev_cases) simp_all
  then have "drop (length (butlast coeffs)) coeffs = [last coeffs]"
    by (metis append_eq_conv_conj)
  then have dl: "drop (?n - Suc 0) coeffs = [last coeffs]" by simp
  have "division_loop d (enumerate 1 (drop 1 (rev coeffs))) (replicate (?n - 1) 0) (last coeffs)
        = Inr (map (\<lambda>j. horner (drop (Suc j) coeffs) d) [0..<?n - 1], horner coeffs d)"
    by (rule division_loop_run) (use assms in \<open>simp_all add: dl\<close>)
  then show ?thesis using assms by (simp add: division_by_linear_divisor_def en)
qed

lemma horner_drop:
  "k < length coeffs \<Longrightarrow> horner (drop k coeffs) d = coeffs ! k + d * horner (drop (Suc k) coeffs) d"
  by (simp add: Cons_nth_drop_Suc [symmetric])

lemma times_linear_nth:
  "k \<le> length q \<Longrightarrow> times_linear q d ! k = (0 # q) ! k - d * (q @ [0]) ! k"
  by (simp add: times_linear_def)

lemma reconstruct_quotient:
  assumes "length coeffs > 1"
  shows "reconstruct (map (\<lambda>j. horner (drop (Suc j) coeffs) d) [0..<length coeffs - 1]) d
           (horner coeffs d) = coeffs"
proof -
  let ?n = "length coeffs"
  let ?q = "map (\<lambda>j. horner (drop (Suc j) coeffs) d) [0..<?n - 1]"
  have len: "length (times_linear ?q d) = ?n"
    using assms by (simp add: times_linear_def)
  have nth: "times_linear ?q d ! k = (if k = 0 then 0 else horner (drop k coeffs) d)
               - d * horner (drop (Suc k) coeffs) d" if "k < ?n" for k
  proof -
    have a: "(0 # ?q) ! k = (if k = 0 then 0 else horner (drop k coeffs) d)"
    proof (cases k)
      case 0
      then show ?thesis by simp
    next
      case (Suc k')
      then have "k' < ?n - 1" using that by simp
      then have "?q ! k' = horner (drop (Suc k') coeffs) d" by (simp del: upt_Suc)
      then show ?thesis using Suc by simp
    qed
    have b: "(?q @ [0]) ! k = horner (drop (Suc k) coeffs) d"
      using that by (cases "k < ?n - 1") (simp_all add: nth_append)
    have "k \<le> length ?q" using that by simp
    then have "times_linear ?q d ! k = (0 # ?q) ! k - d * (?q @ [0]) ! k"
      by (rule times_linear_nth)
    then show ?thesis by (simp only: a b)
  qed
  obtain c cs where tl: "times_linear ?q d = c # cs"
    using len assms by (cases "times_linear ?q d") simp_all
  have "(c + horner coeffs d) # cs = coeffs"
  proof (rule nth_equalityI)
    show "length ((c + horner coeffs d) # cs) = ?n" using len tl by simp
    fix k assume "k < length ((c + horner coeffs d) # cs)"
    then have k: "k < ?n" using len tl by simp
    show "((c + horner coeffs d) # cs) ! k = coeffs ! k"
    proof (cases k)
      case 0
      have pos: "0 < ?n" using assms by auto
      have "c = times_linear ?q d ! 0" using tl by simp
      then have "c = - d * horner (drop (Suc 0) coeffs) d" using nth [OF pos] by simp
      moreover have "horner coeffs d = coeffs ! 0 + d * horner (drop (Suc 0) coeffs) d"
        using horner_drop [OF pos, of d] by simp
      ultimately show ?thesis using 0 by simp
    next
      case (Suc k')
      have "cs ! k' = times_linear ?q d ! k" using tl Suc by simp
      then show ?thesis using nth [OF k] horner_drop [OF k, of d] Suc by simp
    qed
  qed
  then show ?thesis unfolding reconstruct_def tl by simp
qed

text \<open>
  Claim C3 (division identity). For a coefficient list with at least two entries and
  every \<open>d\<close>, \<open>division_by_linear_divisor\<close> returns a quotient with one
  coefficient fewer and a remainder such that \<open>quotient(x) * (x - d) + remainder\<close>
  has the coefficients of the input, and the remainder is the input evaluated at
  \<open>d\<close>.
\<close>

theorem division_identity:
  assumes "length coeffs \<ge> 2"
  shows "\<exists>quot remainder. division_by_linear_divisor coeffs d = Inr (quot, remainder)
           \<and> length quot = length coeffs - 1
           \<and> reconstruct quot d remainder = coeffs
           \<and> remainder = evaluate coeffs d"
  using assms division_by_linear_divisor_eq [of coeffs d] reconstruct_quotient [of coeffs d]
  by (simp add: evaluate_horner)

theorem division_identity_witness:
  "length [1, 2, 3 :: int] \<ge> 2
   \<and> division_by_linear_divisor [1, 2, 3 :: int] 5 = Inr ([17, 3], 86)
   \<and> reconstruct [17, 3] 5 86 = [1, 2, 3 :: int] \<and> evaluate [1, 2, 3 :: int] 5 = 86"
  using division_identity [of "[1, 2, 3 :: int]" 5]
  by (simp add: reconstruct_def times_linear_def evaluate_def division_by_linear_divisor_def enumerate_eq_zip upt_rec)

subsection \<open>Multi-scalar multiplication\<close>

text \<open>
  Claim C4 (MSM agreement) fails on the code: for the single base 1 and the single
  scalar 1, \<open>msm_bigint_wnaf\<close> returns 0, where \<open>msm_bigint_basic\<close> returns
  \<open>1 * 1 = 1\<close>. The table \<open>precomp\<close> holds the multiples \<open>0, 1, ..., 15\<close> of a base,
  and a window \<open>w\<close> below 16 adds entry \<open>w - 1\<close>.
\<close>

theorem msm_agreement_fails:
  "msm_bigint_wnaf [1::int] [1] = Inr 0 \<and> msm_bigint_basic [1::int] [1] = 1"
  by (simp add: msm_bigint_wnaf_def msm_bigint_basic_def max_next_power_of_two_def
      next_power_of_two_def WINDOW_SIZE_def next_power_of_two_loop.simps)

text \<open>
  Claim C10 (shipped configuration). With the module flag \<open>negation_is_cheap\<close>, which
  is \<open>False\<close>, every call of \<open>msm_bigint\<close> is the basic linear scan, and so
  \<open>commit\<close> and \<open>open_with_witness_polynomial\<close> compute with
  \<open>msm_bigint_basic\<close> alone: the windowed method and its errors never occur.
\<close>

theorem shipped_msm_is_basic:
  fixes self :: "('g, 'a :: comm_ring_1) KZG10Commitment"
  shows "msm_bigint negation_is_cheap bases bigints = Inr (msm_bigint_basic bases bigints)
   \<and> commit self rnd polynomial
     = (if \<not> degree polynomial + 1 \<le> length (powers_of_g (params self))
        then Some (Inl AssertionError)
        else case hiding_bound self of
          None \<Rightarrow>
            Some (Inr (\<lparr>group = G1 self,
                        val = msm_bigint_basic
                                (drop (skip_zeros_loop polynomial 0) (powers_of_g (params self)))
                                (drop (skip_zeros_loop polynomial 0) polynomial)\<rparr>, []))
        | Some hb \<Rightarrow>
            (case sample_random_ints (of_int :: int \<Rightarrow> 'a) rnd hb 0 [] of
               None \<Rightarrow> None
             | Some (random_ints, k) \<Rightarrow>
                 if hb = 0 then Some (Inl AssertionError)
                 else if \<not> int (length random_ints) - 1
                            < int (length (powers_of_gamma_g (params self)))
                 then Some (Inl AssertionError)
                 else Some (Inr (\<lparr>group = G1 self,
                        val = msm_bigint_basic
                                (drop (skip_zeros_loop polynomial 0) (powers_of_g (params self)))
                                (drop (skip_zeros_loop polynomial 0) polynomial)
                              + msm_bigint_basic (powers_of_gamma_g (params self)) random_ints\<rparr>,
                      random_ints))))
   \<and> open_with_witness_polynomial self point random_ints' witness_polynomial hiding_witness_polynomial
     = (if \<not> degree witness_polynomial + 1 < length (powers_of_g (params self))
        then Inl AssertionError
        else Inr \<lparr>w = msm_bigint_basic
                        (drop (skip_zeros_loop witness_polynomial 0) (powers_of_g (params self)))
                        (drop (skip_zeros_loop witness_polynomial 0) witness_polynomial)
                      + (case hiding_witness_polynomial of
                           None \<Rightarrow> 0
                         | Some hiding_coeffs \<Rightarrow>
                             msm_bigint_basic (powers_of_gamma_g (params self)) hiding_coeffs),
                  random_v = map_option (\<lambda>_. evaluate random_ints' point)
                               hiding_witness_polynomial\<rparr>)"
  by (simp add: msm_bigint_def negation_is_cheap_def open_with_witness_polynomial_def
      commit_def skip_leading_zeros_and_convert_to_bigints_def Let_def
      split: option.split prod.split)

subsection \<open>The structured reference string\<close>


text \<open>
  Claim C9 (shape of the SRS). For \<open>max_degree \<ge> 0\<close>, with \<open>g\<close>, \<open>h\<close>, the secret
  \<open>s\<close> and \<open>gamma_g\<close> as fixed at the beginning of the method, the parameters have
  \<open>max_degree + 1\<close> powers \<open>g * s ^ i\<close>, \<open>max_degree + 2\<close> powers
  \<open>gamma_g * s ^ i\<close>, and \<open>beta_h = s * h\<close>.
\<close>

theorem setup_srs_shape:
  assumes "0 \<le> md"
    and "setup_draws secret_symbol generators rnd = (g, h', s, gamma_g)"
    and "produce_g2_powers \<longrightarrow> s \<noteq> 0"
  shows "\<exists>prm. setup_srs md produce_g2_powers secret_symbol generators rnd = Inr prm
      \<and> length (powers_of_g prm) = nat md + 1
      \<and> (\<forall>i < nat md + 1. powers_of_g prm ! i = g * s ^ i)
      \<and> length (powers_of_gamma_g prm) = nat md + 2
      \<and> (\<forall>i < nat md + 2. powers_of_gamma_g prm ! i = gamma_g * s ^ i)
      \<and> h prm = h' \<and> beta_h prm = s * h'"
proof -
  have a: "nat (md + 1) = nat md + 1" "nat (md + 2) = nat md + 2" using assms(1) by auto
  show ?thesis
    using assms(2,3) unfolding setup_srs_def a
    by (auto simp add: Let_def nth_append simp del: upt_Suc)
qed


theorem setup_srs_shape_witness:
  "\<exists>prm. setup_srs 2 True (Some (3 :: rat)) (Some (2, 5)) (\<lambda>k. 7) = Inr prm
      \<and> length (powers_of_g prm) = 3 \<and> powers_of_g prm ! 2 = 2 * 3 ^ 2
      \<and> length (powers_of_gamma_g prm) = 4 \<and> powers_of_gamma_g prm ! 3 = 7 * 3 ^ 3
      \<and> h prm = 5 \<and> beta_h prm = 3 * 5"
proof -
  have d: "setup_draws (Some (3 :: rat)) (Some (2, 5)) (\<lambda>k. 7) = (2, 5, 3, 7)"
    by (simp add: setup_draws_def)
  have n: "(0::int) \<le> 2" by simp
  have p: "True \<longrightarrow> (3 :: rat) \<noteq> 0" by simp
  obtain prm where prm: "setup_srs 2 True (Some (3 :: rat)) (Some (2, 5)) (\<lambda>k. 7) = Inr prm"
    and lg: "length (powers_of_g prm) = nat 2 + 1"
    and pg: "\<forall>i < nat 2 + 1. powers_of_g prm ! i = 2 * 3 ^ i"
    and lgg: "length (powers_of_gamma_g prm) = nat 2 + 2"
    and pgg: "\<forall>i < nat 2 + 2. powers_of_gamma_g prm ! i = 7 * 3 ^ i"
    and hb: "h prm = 5" "beta_h prm = 3 * 5"
    using setup_srs_shape [OF n d p] by blast
  have "powers_of_g prm ! 2 = 2 * 3 ^ 2" using pg by simp
  moreover have "powers_of_gamma_g prm ! 3 = 7 * 3 ^ 3" using pgg by simp
  ultimately show ?thesis using prm lg lgg hb by simp
qed

subsection \<open>The verifier\<close>

text \<open>
  Claim C2 (the check). With a first power \<open>g_first\<close> of \<open>g\<close>, \<open>check\<close> returns
  whether \<open>pairing(inner, h) = pairing(proof.w, beta_h - point * h)\<close>, where
  \<open>inner\<close> is \<open>commitment - value * g_first\<close>, less
  \<open>proof.random_v * gamma_first\<close> when hiding is enabled and the proof carries its
  blinding value.
\<close>

theorem check_pairing_identity:
  assumes "powers_of_g (params self) = g_first # gs"
  shows "(hiding_bound self = None \<longrightarrow>
            check self pairing comm point value' proof'
            = Inr (pairing (val comm - g_first * of_int value') (h (params self))
                   = pairing (w proof') (beta_h (params self) - h (params self) * of_int point)))
       \<and> (hiding_bound self \<noteq> None \<longrightarrow> powers_of_gamma_g (params self) = gamma_first # gammas
            \<longrightarrow> random_v proof' = Some rv \<longrightarrow>
            check self pairing comm point value' proof'
            = Inr (pairing (val comm - g_first * of_int value' - gamma_first * of_int rv) (h (params self))
                   = pairing (w proof') (beta_h (params self) - h (params self) * of_int point)))"
  using assms by (simp add: check_def)

theorem check_pairing_identity_witness:
  "check \<lparr>G1 = (), G2 = (), max_degree = 1, hiding_bound = None,
           params = \<lparr>powers_of_g = [2, 6], powers_of_gamma_g = [7, 21, 63], h = 5,
                      beta_h = 15, neg_powers_of_h = []\<rparr>\<rparr>
      (\<lambda>a b. a * b) \<lparr>group = (), val = 22 :: int\<rparr> 4 11 \<lparr>w = 0, random_v = None\<rparr>
    = Inr True
   \<and> check \<lparr>G1 = (), G2 = (), max_degree = 1, hiding_bound = Some 1,
           params = \<lparr>powers_of_g = [2, 6], powers_of_gamma_g = [7, 21, 63], h = 5,
                      beta_h = 15, neg_powers_of_h = []\<rparr>\<rparr>
      (\<lambda>a b. a * b) \<lparr>group = (), val = 22 :: int\<rparr> 4 11 \<lparr>w = 0, random_v = Some 1\<rparr>
    = Inr False"
proof -
  let ?prm = "\<lparr>powers_of_g = [2, 6], powers_of_gamma_g = [7, 21, 63], h = 5,
                beta_h = 15, neg_powers_of_h = []\<rparr> :: int params"
  let ?plain = "\<lparr>G1 = (), G2 = (), max_degree = 1, hiding_bound = None, params = ?prm\<rparr>"
  let ?hiding = "\<lparr>G1 = (), G2 = (), max_degree = 1, hiding_bound = Some 1, params = ?prm\<rparr>"
  have a: "powers_of_g (params ?plain) = 2 # [6]"
    and b: "powers_of_g (params ?hiding) = 2 # [6]" by simp_all
  show ?thesis
    using check_pairing_identity [OF a, where pairing = "\<lambda>a b. a * b"
        and comm = "\<lparr>group = (), val = 22\<rparr>" and point = 4 and value' = 11
        and proof' = "\<lparr>w = 0, random_v = None\<rparr>"]
      check_pairing_identity [OF b, where pairing = "\<lambda>a b. a * b"
        and comm = "\<lparr>group = (), val = 22\<rparr>" and point = 4 and value' = 11
        and proof' = "\<lparr>w = 0, random_v = Some 1\<rparr>" and gamma_first = 7 and gammas = "[21, 63]"
        and rv = 1]
    by simp
qed

subsection \<open>Precondition violations\<close>

lemma degree_short: "length ri \<le> 1 \<Longrightarrow> degree ri = 0"
  by (cases ri) auto

lemma sample_zero_aux:
  assumes "sample_random_ints f rnd hb k ri = Some y"
  shows "\<not> (hb \<le> 0 \<and> length ri \<le> 1)"
proof (rule sample_random_ints.raw_induct
    [where P = "\<lambda>f rnd hb k ri y. \<not> (hb \<le> 0 \<and> length ri \<le> 1)", OF _ assms])
  fix sample :: "(int \<Rightarrow> 'a) \<Rightarrow> (nat \<Rightarrow> int) \<Rightarrow> int \<Rightarrow> nat \<Rightarrow> int list \<Rightarrow> (int list \<times> nat) option"
    and f rnd hb k ri y
  assume ih: "\<And>f rnd hb k ri y. sample f rnd hb k ri = Some y
                \<Longrightarrow> \<not> (hb \<le> 0 \<and> length ri \<le> 1)"
    and run: "(if degree (map f ri) = 0
               then sample f rnd hb (k + nat (hb + 1)) (map rnd [k..<k + nat (hb + 1)])
               else Some (ri, k)) = Some y"
  show "\<not> (hb \<le> 0 \<and> length ri \<le> 1)"
  proof
    assume a: "hb \<le> 0 \<and> length ri \<le> 1"
    then have "degree (map f ri) = 0" by (simp add: degree_short)
    with run have "sample f rnd hb (k + nat (hb + 1)) (map rnd [k..<k + nat (hb + 1)]) = Some y"
      by simp
    from ih [OF this] a show False by auto
  qed
qed

lemma sample_random_ints_never:
  "hb \<le> 0 \<Longrightarrow> sample_random_ints f rnd hb 0 [] = None"
  using sample_zero_aux [of f rnd hb 0 "[]"]
  by (cases "sample_random_ints f rnd hb 0 []") auto

lemma commit_hiding_bound_zero:
  assumes "hiding_bound self = Some hb" "hb \<le> 0"
    and "degree polynomial + 1 \<le> length (powers_of_g (params self))"
  shows "commit self rnd polynomial = None"
  using assms
  by (simp add: commit_def Let_def msm_bigint_def negation_is_cheap_def
      sample_random_ints_never split: prod.split)

lemma commit_too_many_coefficients:
  "\<not> degree polynomial + 1 \<le> length (powers_of_g (params self))
   \<Longrightarrow> commit self rnd polynomial = Some (Inl AssertionError)"
  by (simp add: commit_def Let_def)

lemma division_degree_zero:
  "length coeffs \<le> 1 \<Longrightarrow> division_by_linear_divisor coeffs d = Inl AssertionError"
  by (simp add: division_by_linear_divisor_def)

lemma Commitment_add_mismatch:
  "group self \<noteq> group other \<Longrightarrow> Commitment_add group_exp self other = Inl TypeError"
  by (simp add: Commitment_add_def)

text \<open>
  Claim C7 (fatal precondition violations) fails on the code for a hiding bound of
  zero: a round of the sampling loop draws one coefficient, whose polynomial has degree
  0, so the loop never ends and the assertion \<open>hiding_bound != 0\<close> behind it is
  not reached. The other three violations raise: see \<open>commit_too_many_coefficients\<close>,
  \<open>division_degree_zero\<close> and \<open>Commitment_add_mismatch\<close>.
\<close>

theorem commit_hiding_bound_zero_diverges:
  "commit \<lparr>G1 = (), G2 = (), max_degree = 1, hiding_bound = Some 0,
            params = \<lparr>powers_of_g = [2, 6], powers_of_gamma_g = [7, 21, 63], h = 5,
                       beta_h = 15, neg_powers_of_h = []\<rparr> :: int params\<rparr>
      (\<lambda>k. 1) [1, 2] = None"
  by (rule commit_hiding_bound_zero [where hb = 0]) (simp_all add: list_all_iff)

subsection \<open>The sampling loop\<close>

lemma sample_random_ints_again:
  "degree (map f ri) = 0 \<Longrightarrow> sample_random_ints f rnd hb k ri
     = sample_random_ints f rnd hb (k + nat (hb + 1)) (map rnd [k..<k + nat (hb + 1)])"
  by (subst sample_random_ints.simps) simp

lemma sample_random_ints_done:
  "degree (map f ri) \<noteq> 0 \<Longrightarrow> sample_random_ints f rnd hb k ri = Some (ri, k)"
  by (subst sample_random_ints.simps) simp

lemma sample_random_ints_returns:
  assumes "degree (map f ri) = 0"
    and "\<forall>m<n. degree (map f (map rnd
            [k + m * nat (hb + 1)..<k + m * nat (hb + 1) + nat (hb + 1)])) = 0"
    and "degree (map f (map rnd
            [k + n * nat (hb + 1)..<k + n * nat (hb + 1) + nat (hb + 1)])) \<noteq> 0"
  shows "sample_random_ints f rnd hb k ri
         = Some (map rnd [k + n * nat (hb + 1)..<k + n * nat (hb + 1) + nat (hb + 1)],
                 k + n * nat (hb + 1) + nat (hb + 1))"
  using assms
proof (induction n arbitrary: k ri)
  case 0
  then show ?case
    by (simp add: sample_random_ints_again sample_random_ints_done del: upt_Suc)
next
  case (Suc n)
  let ?L = "nat (hb + 1)"
  have d0: "degree (map f (map rnd [k..<k + ?L])) = 0"
    using Suc.prems(2) [rule_format, of 0] by simp
  have "sample_random_ints f rnd hb (k + ?L) (map rnd [k..<k + ?L])
        = Some (map rnd [k + ?L + n * ?L..<k + ?L + n * ?L + ?L], k + ?L + n * ?L + ?L)"
  proof (rule Suc.IH [OF d0])
    show "\<forall>m<n. degree (map f (map rnd [k + ?L + m * ?L..<k + ?L + m * ?L + ?L])) = 0"
    proof (intro allI impI)
      fix m assume "m < n"
      then have "Suc m < Suc n" by simp
      from Suc.prems(2) [rule_format, OF this]
      show "degree (map f (map rnd [k + ?L + m * ?L..<k + ?L + m * ?L + ?L])) = 0"
        by (simp add: algebra_simps)
    qed
    show "degree (map f (map rnd [k + ?L + n * ?L..<k + ?L + n * ?L + ?L])) \<noteq> 0"
      using Suc.prems(3) by (simp add: algebra_simps)
  qed
  then show ?case
    using Suc.prems(1) by (simp add: sample_random_ints_again algebra_simps del: upt_Suc)
qed

lemma sample_random_ints_degree:
  assumes "sample_random_ints f rnd hb k ri = Some y"
  shows "degree (map f (fst y)) \<noteq> 0"
proof (rule sample_random_ints.raw_induct
    [where P = "\<lambda>f rnd hb k ri y. degree (map f (fst y)) \<noteq> 0", OF _ assms])
  fix sample :: "(int \<Rightarrow> 'a) \<Rightarrow> (nat \<Rightarrow> int) \<Rightarrow> int \<Rightarrow> nat \<Rightarrow> int list \<Rightarrow> (int list \<times> nat) option"
    and f rnd hb k ri y
  assume ih: "\<And>f rnd hb k ri y. sample f rnd hb k ri = Some y \<Longrightarrow> degree (map f (fst y)) \<noteq> 0"
    and run: "(if degree (map f ri) = 0
               then sample f rnd hb (k + nat (hb + 1)) (map rnd [k..<k + nat (hb + 1)])
               else Some (ri, k)) = Some y"
  show "degree (map f (fst y)) \<noteq> 0"
  proof (cases "degree (map f ri) = 0")
    case True
    with run ih show ?thesis by simp
  next
    case False
    with run show ?thesis by auto
  qed
qed

lemma commit_randomness:
  fixes self :: "('g, 'a :: comm_ring_1) KZG10Commitment"
  assumes "hiding_bound self = Some b"
    and "commit self rnd polynomial = Some (Inr (c, random_ints))"
  shows "\<exists>k. sample_random_ints (of_int :: int \<Rightarrow> 'a) rnd b 0 [] = Some (random_ints, k)"
  using assms
  by (auto simp add: commit_def Let_def msm_bigint_def negation_is_cheap_def
      split: prod.splits option.splits if_splits)

text \<open>
  Claim C8 (hiding non-degeneracy). With a hiding bound \<open>b > 0\<close>, the blinding
  coefficients that \<open>commit\<close> returns are, as elements of the field, those of a
  polynomial of degree at least 1. (That the loop returns as soon as a round draws such
  a polynomial is \<open>sample_random_ints_returns\<close>.)
\<close>

theorem hiding_non_degenerate:
  fixes self :: "('g, 'a :: comm_ring_1) KZG10Commitment"
  assumes "hiding_bound self = Some b" and "0 < b"
    and "commit self rnd polynomial = Some (Inr (c, random_ints))"
  shows "1 \<le> degree (map of_int random_ints :: 'a list)"
proof -
  obtain k where "sample_random_ints (of_int :: int \<Rightarrow> 'a) rnd b 0 [] = Some (random_ints, k)"
    using commit_randomness [OF assms(1,3)] by blast
  from sample_random_ints_degree [OF this] show ?thesis by simp
qed

theorem hiding_non_degenerate_witness:
  "commit \<lparr>G1 = (), G2 = (), max_degree = 1, hiding_bound = Some 1,
            params = \<lparr>powers_of_g = [2, 1], powers_of_gamma_g = [1, 2, 1], h = 2,
                       beta_h = 1, neg_powers_of_h = []\<rparr> :: 3 params\<rparr>
      (\<lambda>k. if k < 2 then 3 else 1) [1, 2] = Some (Inr (\<lparr>group = (), val = 1\<rparr>, [1, 1]))
   \<and> 1 \<le> degree (map of_int [1, 1] :: 3 list)"
proof -
  let ?self = "\<lparr>G1 = (), G2 = (), max_degree = 1, hiding_bound = Some 1,
            params = \<lparr>powers_of_g = [2, 1], powers_of_gamma_g = [1, 2, 1], h = 2,
                       beta_h = 1, neg_powers_of_h = []\<rparr> :: 3 params\<rparr>"
  let ?rnd = "\<lambda>k :: nat. if k < 2 then 3 else 1 :: int"
  have z: "of_int 3 = (0 :: 3)" by simp
  have s: "sample_random_ints (of_int :: int \<Rightarrow> 3) ?rnd 1 0 [] = Some ([1, 1], 4)"
    using sample_random_ints_returns [where f = "of_int :: int \<Rightarrow> 3" and rnd = ?rnd
        and hb = 1 and k = 0 and n = 1 and ri = "[]"]
    by (simp add: upt_rec z)
  have c: "commit ?self ?rnd [1, 2] = Some (Inr (\<lparr>group = (), val = 1\<rparr>, [1, 1]))"
    by (simp add: commit_def s msm_bigint_def negation_is_cheap_def msm_bigint_basic_def
        skip_leading_zeros_and_convert_to_bigints_def skip_zeros_loop.simps)
  have hb: "hiding_bound ?self = Some 1" by simp
  show ?thesis
    using hiding_non_degenerate [OF hb _ c] c by simp
qed

subsection \<open>The basic multi-scalar multiplication as a sum\<close>

lemma msm_foldl_shift:
  "foldl (\<lambda>result (base, scalar). result + base * of_int scalar) a xs
   = a + foldl (\<lambda>result (base, scalar). result + base * of_int scalar) (0 :: 'a :: comm_ring_1) xs"
proof (induction xs arbitrary: a)
  case Nil
  then show ?case by simp
next
  case (Cons x xs)
  obtain b s where x: "x = (b, s)" by (cases x)
  show ?case
    using Cons.IH [of "a + b * of_int s"] Cons.IH [of "b * of_int s"]
    by (simp add: x add.assoc)
qed

lemma msm_bigint_basic_Nil [simp]:
  "msm_bigint_basic [] bigints = 0" "msm_bigint_basic bases [] = 0"
  by (simp_all add: msm_bigint_basic_def)

lemma msm_bigint_basic_Cons [simp]:
  "msm_bigint_basic (b # bases) (c # bigints) = b * of_int c + msm_bigint_basic bases bigints"
  unfolding msm_bigint_basic_def
  using msm_foldl_shift [of "b * of_int c" "zip bases bigints"] by simp

lemma msm_bigint_basic_drop:
  "\<forall>i<n. i < length cs \<longrightarrow> cs ! i = 0
   \<Longrightarrow> msm_bigint_basic (drop n bs) (drop n cs) = msm_bigint_basic bs cs"
proof (induction n arbitrary: bs cs)
  case 0
  then show ?case by simp
next
  case (Suc n)
  show ?case
  proof (cases bs)
    case Nil
    then show ?thesis by simp
  next
    case bs: (Cons b bs')
    show ?thesis
    proof (cases cs)
      case Nil
      then show ?thesis by simp
    next
      case cs: (Cons c cs')
      have c0: "c = 0" using Suc.prems [rule_format, of 0] cs by simp
      have "\<forall>i<n. i < length cs' \<longrightarrow> cs' ! i = 0"
        using Suc.prems cs by (metis Suc_less_eq length_Cons nth_Cons_Suc)
      from Suc.IH [OF this, of bs'] show ?thesis by (simp add: bs cs c0)
    qed
  qed
qed

lemma skip_zeros_loop_zeros:
  "k \<le> i \<Longrightarrow> i < skip_zeros_loop p k \<Longrightarrow> i < length p \<and> p ! i = 0"
proof (induction p k rule: skip_zeros_loop.induct)
  case (1 coeffs n)
  show ?case
  proof (cases "n < length coeffs \<and> coeffs ! n = 0")
    case True
    then have s: "skip_zeros_loop coeffs n = skip_zeros_loop coeffs (n + 1)"
      by (subst skip_zeros_loop.simps) simp
    show ?thesis
    proof (cases "i = n")
      case True
      with \<open>n < length coeffs \<and> coeffs ! n = 0\<close> show ?thesis by simp
    next
      case False
      then have "n + 1 \<le> i" using 1(2) by simp
      moreover have "i < skip_zeros_loop coeffs (n + 1)" using 1(3) s by simp
      ultimately show ?thesis using 1(1) [OF True] by simp
    qed
  next
    case False
    then have "skip_zeros_loop coeffs n = n" by (subst skip_zeros_loop.simps) auto
    with 1(2,3) show ?thesis by simp
  qed
qed

lemma msm_skip_leading_zeros:
  "msm_bigint_basic (drop (skip_zeros_loop p 0) bs) (drop (skip_zeros_loop p 0) p)
   = msm_bigint_basic bs p"
proof (rule msm_bigint_basic_drop, intro allI impI)
  fix i assume "i < skip_zeros_loop p 0"
  with skip_zeros_loop_zeros [of 0 i p] show "p ! i = 0" by simp
qed

lemma commit_plain:
  assumes "hiding_bound self = None"
    and "degree polynomial + 1 \<le> length (powers_of_g (params self))"
  shows "commit self rnd polynomial
         = Some (Inr (\<lparr>group = G1 self,
                        val = msm_bigint_basic (powers_of_g (params self)) polynomial\<rparr>, []))"
  using assms
  by (simp add: commit_def Let_def msm_bigint_def negation_is_cheap_def
      skip_leading_zeros_and_convert_to_bigints_def msm_skip_leading_zeros)

subsection \<open>Sums of polynomials\<close>

lemma msm_bigint_basic_add:
  "msm_bigint_basic bs (poly_add p q) = msm_bigint_basic bs p + msm_bigint_basic bs q"
proof (induction p q arbitrary: bs rule: poly_add.induct)
  case (1 qs)
  then show ?case by simp
next
  case (2 p ps)
  then show ?case by simp
next
  case (3 p ps q qs)
  then show ?case by (cases bs) (simp_all add: algebra_simps)
qed

lemma degree_zeros: "list_all (\<lambda>x. x = 0) cs \<Longrightarrow> degree cs = 0"
  by (cases cs) simp_all

lemma poly_add_zeros:
  "list_all (\<lambda>x. x = 0) ps \<Longrightarrow> list_all (\<lambda>x. x = 0) qs
   \<Longrightarrow> list_all (\<lambda>x. x = 0) (poly_add ps qs)"
  by (induction ps qs rule: poly_add.induct) simp_all

lemma degree_poly_add: "degree (poly_add p q) \<le> max (degree p) (degree q)"
proof (induction p q rule: poly_add.induct)
  case (1 qs)
  then show ?case by simp
next
  case (2 p ps)
  then show ?case by simp
next
  case (3 p ps q qs)
  show ?case
  proof (cases "list_all (\<lambda>x. x = 0) (poly_add ps qs)")
    case True
    then show ?thesis by simp
  next
    case False
    then have nz: "\<not> list_all (\<lambda>x. x = 0) ps \<or> \<not> list_all (\<lambda>x. x = 0) qs"
      using poly_add_zeros by blast
    have "degree ((p + q) # poly_add ps qs) = Suc (degree (poly_add ps qs))"
      using False by simp
    also have "\<dots> \<le> Suc (max (degree ps) (degree qs))" using 3 by simp
    also have "\<dots> \<le> max (degree (p # ps)) (degree (q # qs))"
    proof (cases "list_all (\<lambda>x. x = 0) ps")
      case True
      then have "\<not> list_all (\<lambda>x. x = 0) qs" using nz by simp
      then show ?thesis using True by (simp add: degree_zeros)
    next
      case ps: False
      show ?thesis
      proof (cases "list_all (\<lambda>x. x = 0) qs")
        case True
        then show ?thesis using ps by (simp add: degree_zeros)
      next
        case False
        then show ?thesis using ps by simp
      qed
    qed
    finally show ?thesis by simp
  qed
qed

text \<open>
  Claim C6 (additive homomorphism). With hiding disabled, for two polynomials within
  the degree bound of \<open>commit\<close>, adding their commitments with
  \<open>Commitment.__add__\<close> gives the commitment of the coefficient-wise sum. The
  group's \<open>exp\<close> is a parameter, taken to return its argument for the exponent 1.
\<close>

theorem commit_additive:
  assumes "hiding_bound self = None"
    and "degree p + 1 \<le> length (powers_of_g (params self))"
    and "degree q + 1 \<le> length (powers_of_g (params self))"
    and "\<forall>v. group_exp v 1 = v"
  shows "\<exists>cp cq cpq. commit self rnd p = Some (Inr (cp, []))
           \<and> commit self rnd q = Some (Inr (cq, []))
           \<and> commit self rnd (poly_add p q) = Some (Inr (cpq, []))
           \<and> Commitment_add group_exp cp cq = Inr cpq"
proof -
  have "degree (poly_add p q) + 1 \<le> length (powers_of_g (params self))"
    using degree_poly_add [of p q] assms(2,3) by (simp add: max_def split: if_splits)
  then show ?thesis
    using assms
    by (simp add: commit_plain Commitment_add_def msm_bigint_basic_add)
qed

theorem commit_additive_witness:
  "commit \<lparr>G1 = (), G2 = (), max_degree = 1, hiding_bound = None,
            params = \<lparr>powers_of_g = [2, 6], powers_of_gamma_g = [7, 21, 63], h = 5,
                       beta_h = 15, neg_powers_of_h = []\<rparr> :: int params\<rparr>
      (\<lambda>k. 0) [1, 2] = Some (Inr (\<lparr>group = (), val = 14\<rparr>, []))
   \<and> commit \<lparr>G1 = (), G2 = (), max_degree = 1, hiding_bound = None,
            params = \<lparr>powers_of_g = [2, 6], powers_of_gamma_g = [7, 21, 63], h = 5,
                       beta_h = 15, neg_powers_of_h = []\<rparr> :: int params\<rparr>
      (\<lambda>k. 0) [0, 3, 0] = Some (Inr (\<lparr>group = (), val = 18\<rparr>, []))
   \<and> commit \<lparr>G1 = (), G2 = (), max_degree = 1, hiding_bound = None,
            params = \<lparr>powers_of_g = [2, 6], powers_of_gamma_g = [7, 21, 63], h = 5,
                       beta_h = 15, neg_powers_of_h = []\<rparr> :: int params\<rparr>
      (\<lambda>k. 0) (poly_add [1, 2] [0, 3, 0]) = Some (Inr (\<lparr>group = (), val = 32\<rparr>, []))
   \<and> Commitment_add (\<lambda>v n. v * of_int n) \<lparr>group = (), val = 14 :: int\<rparr> \<lparr>group = (), val = 18\<rparr>
     = Inr \<lparr>group = (), val = 32\<rparr>"
proof -
  let ?self = "\<lparr>G1 = (), G2 = (), max_degree = 1, hiding_bound = None,
            params = \<lparr>powers_of_g = [2, 6], powers_of_gamma_g = [7, 21, 63], h = 5,
                       beta_h = 15, neg_powers_of_h = []\<rparr> :: int params\<rparr>"
  have a: "hiding_bound ?self = None" by simp
  have b: "degree [1, 2 :: int] + 1 \<le> length (powers_of_g (params ?self))" by simp
  have c: "degree [0, 3, 0 :: int] + 1 \<le> length (powers_of_g (params ?self))" by simp
  have d: "\<forall>v :: int. (\<lambda>v n. v * of_int n) v 1 = v" by simp
  show ?thesis
    using commit_additive [where group_exp = "\<lambda>v n. v * of_int n" and rnd = "\<lambda>k. 0", OF a b c d]
    by (simp add: commit_plain Commitment_add_def)
qed

subsection \<open>The batched verifier\<close>

lemma sum_list_upt_Suc_shift:
  "(\<Sum>i\<leftarrow>[0..<Suc n]. F i) = F 0 + (\<Sum>i\<leftarrow>[0..<n]. F (Suc i) :: 'a :: comm_monoid_add)"
proof -
  have "[0..<Suc n] = 0 # map Suc [0..<n]"
    by (simp add: upt_conv_Cons map_Suc_upt del: upt_Suc)
  then show ?thesis by (simp add: o_def del: upt_Suc)
qed

lemma randomizer_at_Suc:
  "randomizer_at rnd (k + 1) (randint rnd k 0 (push_bit 128 1)) i = randomizer_at rnd k first (Suc i)"
  by (simp add: randomizer_at_def)

lemma randint_range: "a \<le> b \<Longrightarrow> a \<le> randint rnd k a b \<and> randint rnd k a b \<le> b"
proof -
  assume "a \<le> b"
  then have "0 < b - a + 1" by simp
  then have "0 \<le> rnd k mod (b - a + 1)" "rnd k mod (b - a + 1) < b - a + 1"
    by (rule pos_mod_sign, rule pos_mod_bound)
  then show ?thesis unfolding randint_def by linarith
qed

lemma batch_loop_sums:
  assumes "\<forall>cl \<in> set claims. hiding \<longrightarrow> random_v (snd (snd (snd cl))) \<noteq> None"
  shows "batch_loop hiding rnd claims k total_c total_w g_multiplier gamma_g_multiplier first
    = Inr (total_c + (\<Sum>i\<leftarrow>[0..<length claims].
                   (of_int (fst (snd (claims ! i))) * w (snd (snd (snd (claims ! i))))
                      + val (fst (claims ! i))) * of_int (randomizer_at rnd k first i)),
           total_w + (\<Sum>i\<leftarrow>[0..<length claims].
                   w (snd (snd (snd (claims ! i)))) * of_int (randomizer_at rnd k first i)),
           g_multiplier + (\<Sum>i\<leftarrow>[0..<length claims].
                   randomizer_at rnd k first i * fst (snd (snd (claims ! i)))),
           gamma_g_multiplier + (if hiding then
                 (\<Sum>i\<leftarrow>[0..<length claims].
                   randomizer_at rnd k first i * the (random_v (snd (snd (snd (claims ! i))))))
               else 0))"
  using assms
proof (induction claims arbitrary: k total_c total_w g_multiplier gamma_g_multiplier first)
  case Nil
  then show ?case by simp
next
  case (Cons cl claims)
  obtain c z v p where cl: "cl = (c, z, v, p)" by (cases cl)
  have rest: "\<forall>cl \<in> set claims. hiding \<longrightarrow> random_v (snd (snd (snd cl))) \<noteq> None"
    using Cons.prems by simp
  have r0: "randomizer_at rnd k first 0 = first" by (simp add: randomizer_at_def)
  have step: "batch_loop hiding rnd (cl # claims) k total_c total_w g_multiplier
                gamma_g_multiplier first
      = batch_loop hiding rnd claims (k + 1)
          (total_c + (of_int z * w p + val c) * of_int first)
          (total_w + w p * of_int first)
          (g_multiplier + first * v)
          (gamma_g_multiplier + (if hiding then first * the (random_v p) else 0))
          (randint rnd k 0 (push_bit 128 1))"
  proof (cases hiding)
    case False
    then show ?thesis unfolding cl batch_loop.simps Let_def by simp
  next
    case True
    then obtain rv where rv: "random_v p = Some rv" using Cons.prems cl by auto
    show ?thesis unfolding cl batch_loop.simps Let_def using True by (simp add: rv)
  qed
  note ih = Cons.IH [OF rest, of "k + 1" _ _ _ _ "randint rnd k 0 (push_bit 128 1)",
      unfolded randomizer_at_Suc [of rnd k _ first]]
  show ?case
    unfolding step ih length_Cons sum_list_upt_Suc_shift
    by (simp add: cl r0 algebra_simps del: upt_Suc)
qed

lemma sum_list_upt_cong:
  "(\<And>i. i < n \<Longrightarrow> F i = G i) \<Longrightarrow> (\<Sum>i\<leftarrow>[0..<n]. F i) = (\<Sum>i\<leftarrow>[0..<n]. G i)"
  by (rule arg_cong [where f = sum_list], rule map_cong) simp_all

lemma zipped_claims_nth:
  assumes "i < length (zip commitments (zip points (zip values proofs)))"
  shows "zip commitments (zip points (zip values proofs)) ! i
         = (commitments ! i, points ! i, values ! i, proofs ! i)"
  using assms by simp

lemma zipped_claims_proof:
  "cl \<in> set (zip commitments (zip points (zip values proofs)))
   \<Longrightarrow> snd (snd (snd cl)) \<in> set proofs"
  by (metis in_set_zipE prod.collapse)

text \<open>
  Claim C5 fails for the first claim of a batch: \<open>batch_check\<close> combines it with the
  constant 1 that \<open>randomizer\<close> is initialised with, not with a drawn integer. Under
  an entropy stream for which every call of \<open>randint\<close> returns 0, a false claim
  (commitment 2, point 3, value 5, witness 7) is rejected when it stands first, though
  a drawn coefficient would be 0 and cancel it; the same claim in second place, where
  the coefficient is drawn, is cancelled and the batch is accepted.
\<close>

theorem first_randomizer_is_one:
  "batch_check \<lparr>G1 = (), G2 = (), max_degree = 1, hiding_bound = None,
                 params = \<lparr>powers_of_g = [2, 6], powers_of_gamma_g = [7, 21, 63], h = 5,
                            beta_h = 15, neg_powers_of_h = []\<rparr> :: int params\<rparr>
       (\<lambda>a b. a * b) (\<lambda>k. 0)
       [\<lparr>group = (), val = 2\<rparr>] [3] [5] [\<lparr>w = 7, random_v = None\<rparr>] = Inr False
   \<and> batch_check \<lparr>G1 = (), G2 = (), max_degree = 1, hiding_bound = None,
                 params = \<lparr>powers_of_g = [2, 6], powers_of_gamma_g = [7, 21, 63], h = 5,
                            beta_h = 15, neg_powers_of_h = []\<rparr> :: int params\<rparr>
       (\<lambda>a b. a * b) (\<lambda>k. 0)
       [\<lparr>group = (), val = 10\<rparr>, \<lparr>group = (), val = 2\<rparr>] [3, 3] [5, 5]
       [\<lparr>w = 0, random_v = None\<rparr>, \<lparr>w = 7, random_v = None\<rparr>] = Inr True
   \<and> randint (\<lambda>k. 0) 0 0 (push_bit 128 1) = 0"
  by (simp add: batch_check_def randint_def)

text \<open>
  Claim C5 as amended. \<open>batch_check\<close> returns the truth value of one pairing equation
  between the sums of the claims' terms, in which claim number 0 has the coefficient 1
  and every later claim number \<open>i\<close> the value of call number \<open>i - 1\<close> of
  \<open>randint(0, 1 << 128)\<close>; every such value is an integer from 0 to \<open>2 ^ 128\<close>.
\<close>

theorem batch_randomizers:
  fixes self :: "('g, 'a :: comm_ring_1) KZG10Commitment"
  assumes "powers_of_g (params self) = g_first # gs"
    and "hiding_bound self \<noteq> None \<longrightarrow> powers_of_gamma_g (params self) = gamma_first # gammas"
    and "\<forall>p \<in> set proofs. hiding_bound self \<noteq> None \<longrightarrow> random_v p \<noteq> None"
  shows "(let n = length (zip commitments (zip points (zip values' proofs)));
              r = (\<lambda>i. if i = 0 then 1 else randint rnd (i - 1) 0 (push_bit 128 1))
          in batch_check self pairing rnd commitments points values' proofs
             = Inr (pairing (\<Sum>i\<leftarrow>[0..<n]. w (proofs ! i) * of_int (r i)) (beta_h (params self))
                    = pairing
                        ((\<Sum>i\<leftarrow>[0..<n]. (of_int (points ! i) * w (proofs ! i)
                                            + val (commitments ! i)) * of_int (r i))
                         - g_first * of_int (\<Sum>i\<leftarrow>[0..<n]. r i * values' ! i)
                         - (if hiding_bound self \<noteq> None
                            then gamma_first
                                 * of_int (\<Sum>i\<leftarrow>[0..<n]. r i * the (random_v (proofs ! i)))
                            else 0))
                        (h (params self))))
       \<and> (\<forall>k. 0 \<le> randint rnd k 0 (push_bit 128 1) \<and> randint rnd k 0 (push_bit 128 1) \<le> 2 ^ 128)"
  (is "?S \<and> ?R")
proof -
  let ?claims = "zip commitments (zip points (zip values' proofs))"
  let ?n = "length ?claims"
  let ?r = "\<lambda>i. if i = 0 then 1 else randint rnd (i - 1) 0 (push_bit 128 1)"
  have rr: ?R using randint_range [of 0 "push_bit 128 1" rnd] by simp
  have ra: "randomizer_at rnd 0 1 = ?r" by (rule ext) (simp add: randomizer_at_def)
  have ok: "\<forall>cl \<in> set ?claims. hiding_bound self \<noteq> None \<longrightarrow> random_v (snd (snd (snd cl))) \<noteq> None"
    using assms(3) zipped_claims_proof by blast
  have c: "(\<Sum>i\<leftarrow>[0..<?n]. (of_int (fst (snd (?claims ! i))) * w (snd (snd (snd (?claims ! i))))
                      + val (fst (?claims ! i))) * of_int (?r i))
        = (\<Sum>i\<leftarrow>[0..<?n]. (of_int (points ! i) * w (proofs ! i) + val (commitments ! i))
                             * of_int (?r i) :: 'a)"
    by (rule sum_list_upt_cong) (simp only: zipped_claims_nth fst_conv snd_conv)
  have ww: "(\<Sum>i\<leftarrow>[0..<?n]. w (snd (snd (snd (?claims ! i)))) * of_int (?r i))
        = (\<Sum>i\<leftarrow>[0..<?n]. w (proofs ! i) * of_int (?r i) :: 'a)"
    by (rule sum_list_upt_cong) (simp only: zipped_claims_nth fst_conv snd_conv)
  have gm: "(\<Sum>i\<leftarrow>[0..<?n]. ?r i * fst (snd (snd (?claims ! i))))
        = (\<Sum>i\<leftarrow>[0..<?n]. ?r i * values' ! i)"
    by (rule sum_list_upt_cong) (simp only: zipped_claims_nth fst_conv snd_conv)
  have gam: "(\<Sum>i\<leftarrow>[0..<?n]. ?r i * the (random_v (snd (snd (snd (?claims ! i))))))
        = (\<Sum>i\<leftarrow>[0..<?n]. ?r i * the (random_v (proofs ! i)))"
    by (rule sum_list_upt_cong) (simp only: zipped_claims_nth fst_conv snd_conv)
  have loop: "batch_loop (hiding_bound self \<noteq> None) rnd ?claims 0 0 0 0 0 1
      = Inr ((\<Sum>i\<leftarrow>[0..<?n]. (of_int (points ! i) * w (proofs ! i) + val (commitments ! i))
                             * of_int (?r i)),
             (\<Sum>i\<leftarrow>[0..<?n]. w (proofs ! i) * of_int (?r i)),
             (\<Sum>i\<leftarrow>[0..<?n]. ?r i * values' ! i),
             (if hiding_bound self \<noteq> None
              then (\<Sum>i\<leftarrow>[0..<?n]. ?r i * the (random_v (proofs ! i))) else 0))"
    unfolding batch_loop_sums [OF ok, of rnd 0 0 0 0 0 1] ra c ww gm gam by simp
  have s: ?S
    unfolding Let_def batch_check_def loop using assms(1,2) by auto
  from s rr show ?thesis by (intro conjI)
qed

theorem batch_randomizers_witness:
  "batch_check \<lparr>G1 = (), G2 = (), max_degree = 1, hiding_bound = Some 1,
                 params = \<lparr>powers_of_g = [2, 6], powers_of_gamma_g = [7, 21, 63], h = 5,
                            beta_h = 15, neg_powers_of_h = []\<rparr> :: int params\<rparr>
       (\<lambda>a b. a * b) (\<lambda>k. 2 ^ 128 + 4)
       [\<lparr>group = (), val = 2\<rparr>, \<lparr>group = (), val = 1\<rparr>] [3, 2] [5, 4]
       [\<lparr>w = 7, random_v = Some 1\<rparr>, \<lparr>w = 3, random_v = Some 2\<rparr>]
     = Inr ((7 * 1 + 3 * 3) * 15
            = ((3 * 7 + 2) * 1 + (2 * 3 + 1) * 3 - 2 * (1 * 5 + 3 * 4) - 7 * (1 * 1 + 3 * 2)) * (5 :: int))
   \<and> randint (\<lambda>k. 2 ^ 128 + 4) 0 0 (push_bit 128 1) = 3"
proof -
  let ?self = "\<lparr>G1 = (), G2 = (), max_degree = 1, hiding_bound = Some 1,
                 params = \<lparr>powers_of_g = [2, 6], powers_of_gamma_g = [7, 21, 63], h = 5,
                            beta_h = 15, neg_powers_of_h = []\<rparr> :: int params\<rparr>"
  let ?proofs = "[\<lparr>w = 7 :: int, random_v = Some 1\<rparr>, \<lparr>w = 3, random_v = Some 2\<rparr>]"
  have a: "powers_of_g (params ?self) = 2 # [6]" by simp
  have b: "hiding_bound ?self \<noteq> None \<longrightarrow> powers_of_gamma_g (params ?self) = 7 # [21, 63]"
    by simp
  have c: "\<forall>p \<in> set ?proofs. hiding_bound ?self \<noteq> None \<longrightarrow> random_v p \<noteq> None" by simp
  have r: "randint (\<lambda>k. 2 ^ 128 + 4) 0 0 (push_bit 128 1) = 3" by (simp add: randint_def)
  have u: "[0..<2] = [0, 1]" by (simp add: upt_rec)
  show ?thesis
    using batch_randomizers [OF a b c, where pairing = "\<lambda>a b. a * b" and rnd = "\<lambda>k. 2 ^ 128 + 4"
        and commitments = "[\<lparr>group = (), val = 2\<rparr>, \<lparr>group = (), val = 1\<rparr>]"
        and points = "[3, 2]" and values' = "[5, 4]"] r
    by (simp add: Let_def u)
qed

subsection \<open>Completeness of commit, open and check\<close>























lemma commit_returns_hiding:
  fixes self :: "('g, 'a :: comm_ring_1) KZG10Commitment"
  assumes "hiding_bound self = Some b" and "0 < b"
    and "degree p + 1 \<le> length (powers_of_g (params self))"
    and "nat (b + 1) \<le> length (powers_of_gamma_g (params self))"
    and "\<forall>j<n. degree (map of_int (map rnd
            [j * nat (b + 1)..<j * nat (b + 1) + nat (b + 1)]) :: 'a list) = 0"
    and "degree (map of_int (map rnd
            [n * nat (b + 1)..<n * nat (b + 1) + nat (b + 1)]) :: 'a list) \<noteq> 0"
  shows "\<exists>comm. commit self rnd p
           = Some (Inr (comm, map rnd [n * nat (b + 1)..<n * nat (b + 1) + nat (b + 1)]))"
proof -
  have "sample_random_ints (of_int :: int \<Rightarrow> 'a) rnd b 0 []
        = Some (map rnd [0 + n * nat (b + 1)..<0 + n * nat (b + 1) + nat (b + 1)],
                0 + n * nat (b + 1) + nat (b + 1))"
    by (rule sample_random_ints_returns) (use assms(5,6) in simp_all)
  then have k: "sample_random_ints (of_int :: int \<Rightarrow> 'a) rnd b 0 []
        = Some (map rnd [n * nat (b + 1)..<n * nat (b + 1) + nat (b + 1)],
                n * nat (b + 1) + nat (b + 1))"
    by simp
  have "int (nat (b + 1)) - 1 < int (length (powers_of_gamma_g (params self)))"
    using assms(2,4) by linarith
  then show ?thesis
    using assms(1,2,3)
    by (simp add: commit_def Let_def k msm_bigint_def negation_is_cheap_def
        skip_leading_zeros_and_convert_to_bigints_def del: upt_Suc)
qed







end
